theory Spec2Isabelle
  imports Main
begin

section \<open>Strings\<close>

text \<open>
  A JavaScript string is a sequence of UTF-16 code units. The model uses \<^typ>\<open>string\<close>:
  one \<^typ>\<open>char\<close> stands for one code unit below 256. Every literal the source compares
  against is ASCII, and the character classes of its regular expressions are given below
  for that range.
\<close>

definition code_unit :: "char \<Rightarrow> nat" where
  "code_unit c = of_char c"

text \<open>\<^verbatim>\<open>\s\<close> and \<^verbatim>\<open>String.prototype.trim\<close>: tab, line feed, vertical tab, form feed,
  carriage return, space and no-break space.\<close>

definition is_space :: "char \<Rightarrow> bool" where
  "is_space c = (code_unit c \<in> {9, 10, 11, 12, 13, 32, 160})"

text \<open>The characters that \<^verbatim>\<open>.\<close> does not match: line feed and carriage return.\<close>

definition is_line_terminator :: "char \<Rightarrow> bool" where
  "is_line_terminator c = (code_unit c \<in> {10, 13})"

text \<open>\<^verbatim>\<open>\d\<close>\<close>

definition is_digit :: "char \<Rightarrow> bool" where
  "is_digit c = (c \<in> set ''0123456789'')"

text \<open>Matching under the \<^verbatim>\<open>i\<close> flag against an ASCII pattern: only \<^verbatim>\<open>A-Z\<close> and
  \<^verbatim>\<open>a-z\<close> are identified.\<close>

definition fold_case :: "char \<Rightarrow> char" where
  "fold_case c =
     (case map_of (zip ''ABCDEFGHIJKLMNOPQRSTUVWXYZ'' ''abcdefghijklmnopqrstuvwxyz'') c of
        None \<Rightarrow> c
      | Some d \<Rightarrow> d)"

text \<open>\<^verbatim>\<open>String.prototype.toLowerCase\<close> on code units below 256: \<^verbatim>\<open>A-Z\<close> and the
  Latin-1 capitals \<^verbatim>\<open>0xC0-0xDE\<close> without the multiplication sign \<^verbatim>\<open>0xD7\<close>.\<close>

definition toLowerCase :: "string \<Rightarrow> string" where
  "toLowerCase s =
     map (\<lambda>c. if 192 \<le> code_unit c \<and> code_unit c \<le> 222 \<and> code_unit c \<noteq> 215
               then char_of (code_unit c + 32) else fold_case c) s"

definition trim :: "string \<Rightarrow> string" where
  "trim s = rev (dropWhile is_space (rev (dropWhile is_space s)))"

definition startsWith :: "string \<Rightarrow> string \<Rightarrow> bool" where
  "startsWith s p = (take (length p) s = p)"

definition endsWith :: "string \<Rightarrow> string \<Rightarrow> bool" where
  "endsWith s p = (length p \<le> length s \<and> drop (length s - length p) s = p)"

text \<open>\<^verbatim>\<open>Array.prototype.join\<close>\<close>

fun join :: "string \<Rightarrow> string list \<Rightarrow> string" where
  "join sep [] = []"
| "join sep [x] = x"
| "join sep (x # y # ys) = x @ sep @ join sep (y # ys)"

text \<open>Decimal rendering of a number in a template literal.\<close>

fun string_of_nat :: "nat \<Rightarrow> string" where
  "string_of_nat n =
     (if n < 10 then [''0123456789'' ! n]
      else string_of_nat (n div 10) @ [''0123456789'' ! (n mod 10)])"

section \<open>The job poller: \<^verbatim>\<open>TranscriptService.pollForResults\<close>\<close>

text \<open>
  \<^verbatim>\<open>ProcessingStatus\<close>, the body of a status response. The result payload is handed to
  the caller untouched, so its type is a parameter.
\<close>

record 'r ProcessingStatus =
  job_id :: string
  status :: string
  progress :: int
  message :: string
  result :: "'r option"

text \<open>
  What one \<^verbatim>\<open>fetch\<close> followed by \<^verbatim>\<open>.json()\<close> can give: the fetch promise rejects with a
  message, or a response arrives with its HTTP status code and a body, which parses
  (\<open>Inr\<close>) or makes \<^verbatim>\<open>.json()\<close> reject (\<open>Inl\<close>, with the message).
\<close>

datatype 'a fetch = Rejects string | Response nat "string + 'a"

definition ok :: "nat \<Rightarrow> bool" where
  "ok code = (200 \<le> code \<and> code \<le> 299)"

text \<open>
  The backend as the client sees it: the answer to the k-th request to the status
  endpoint and to the k-th request to the result endpoint, counted from 0.
\<close>

record 'r backend =
  status_endpoint :: "nat \<Rightarrow> 'r ProcessingStatus fetch"
  result_endpoint :: "nat \<Rightarrow> 'r fetch"

text \<open>A thrown \<^verbatim>\<open>Error\<close> and its message.\<close>

datatype error = Error string

text \<open>The error kinds of the specification are the message formats of the source.\<close>

definition ProcessingFailed :: "string \<Rightarrow> error" where
  "ProcessingFailed msg = Error (''Processing failed: '' @ msg)"

definition Timeout :: error where
  "Timeout = Error ''Processing timeout. Please try again with a shorter audio file.''"

text \<open>
  What the loop leaves behind besides its return value: the number of requests sent to
  each endpoint, the delays awaited in order (milliseconds), and the caller's state, which
  the progress callback updates. The callback is taken to return normally.
\<close>

record 'u poll_state =
  status_requests :: nat
  result_requests :: nat
  delays :: "nat list"
  user :: 'u

datatype 'r outcome = Return 'r | Throw error | Next

definition maxAttempts :: nat where
  "maxAttempts = 120"

text \<open>The \<^verbatim>\<open>try\<close> block of one iteration, up to the check for a failed job.\<close>

definition try_block ::
  "'r backend \<Rightarrow> (int \<Rightarrow> string \<Rightarrow> 'u \<Rightarrow> 'u) option \<Rightarrow> 'u poll_state \<Rightarrow> 'r outcome \<times> 'u poll_state" where
  "try_block be onProgress s =
     (let s1 = s\<lparr>status_requests := status_requests s + 1\<rparr> in
      case status_endpoint be (status_requests s) of
        Rejects m \<Rightarrow> (Throw (Error m), s1)
      | Response code body \<Rightarrow>
          if \<not> ok code then (Throw (Error (''Status check failed: '' @ string_of_nat code)), s1)
          else (case body of
            Inl m \<Rightarrow> (Throw (Error m), s1)
          | Inr st \<Rightarrow>
              let s2 = (case onProgress of
                          None \<Rightarrow> s1
                        | Some f \<Rightarrow> s1\<lparr>user := f (progress st) (message st) (user s1)\<rparr>)
              in
              if status st = ''completed'' then
                (case result st of
                   Some r \<Rightarrow> (Return r, s2)
                 | None \<Rightarrow>
                     let s3 = s2\<lparr>result_requests := result_requests s2 + 1\<rparr> in
                     (case result_endpoint be (result_requests s2) of
                        Rejects m \<Rightarrow> (Throw (Error m), s3)
                      | Response rcode rbody \<Rightarrow>
                          if \<not> ok rcode
                          then (Throw (Error (''Result fetch failed: '' @ string_of_nat rcode)), s3)
                          else (case rbody of
                                  Inl m \<Rightarrow> (Throw (Error m), s3)
                                | Inr r \<Rightarrow> (Return r, s3))))
              else if status st = ''failed'' then (Throw (ProcessingFailed (message st)), s2)
              else (Next, s2)))"

text \<open>
  The \<^verbatim>\<open>while (attempts < maxAttempts)\<close> loop with its \<^verbatim>\<open>catch\<close> block. The local
  variable \<^verbatim>\<open>attempts\<close> is an argument.
\<close>

function pollLoop ::
  "'r backend \<Rightarrow> (int \<Rightarrow> string \<Rightarrow> 'u \<Rightarrow> 'u) option \<Rightarrow> nat \<Rightarrow> 'u poll_state
     \<Rightarrow> (error + 'r) \<times> 'u poll_state" where
  "pollLoop be onProgress attempts s =
     (if attempts < maxAttempts then
        (case try_block be onProgress s of
           (Return r, s') \<Rightarrow> (Inr r, s')
         | (Next, s') \<Rightarrow>
             pollLoop be onProgress (attempts + 1) (s'\<lparr>delays := delays s' @ [5000]\<rparr>)
         | (Throw e, s') \<Rightarrow>
             if attempts < 3
             then pollLoop be onProgress (attempts + 1) (s'\<lparr>delays := delays s' @ [2000]\<rparr>)
             else (Inl e, s'))
      else (Inl Timeout, s))"
  by pat_completeness auto
termination
  by (relation "measure (\<lambda>(be, onProgress, attempts, s). maxAttempts - attempts)") auto

declare pollLoop.simps [simp del]

definition initial :: "'u \<Rightarrow> 'u poll_state" where
  "initial u = \<lparr>status_requests = 0, result_requests = 0, delays = [], user = u\<rparr>"

definition pollForResults ::
  "'r backend \<Rightarrow> (int \<Rightarrow> string \<Rightarrow> 'u \<Rightarrow> 'u) option \<Rightarrow> 'u \<Rightarrow> (error + 'r) \<times> 'u poll_state" where
  "pollForResults be onProgress u = pollLoop be onProgress 0 (initial u)"

section \<open>The inline poll loops of \<^verbatim>\<open>processImage\<close> and \<^verbatim>\<open>processDocument\<close>\<close>

text \<open>
  The component state the loops write: \<^verbatim>\<open>setProgress\<close>, \<^verbatim>\<open>setResult\<close>,
  \<^verbatim>\<open>setActiveTab\<close>.
\<close>

record 'r view =
  progress_bar :: int
  shown :: "'r option"
  activeTab :: nat

datatype ('a, 's) iteration = Stop 'a 's | Continue 's

text \<open>
  The body of \<^verbatim>\<open>while (true)\<close>. The two components have the same body up to the names
  of their local variables. Neither looks at \<^verbatim>\<open>response.ok\<close>: whatever body arrives is
  parsed. A body without a \<^verbatim>\<open>status\<close> field is a \<^typ>\<open>'r ProcessingStatus\<close> whose
  status is neither of the two strings compared against.
\<close>

definition inline_iteration ::
  "'r backend \<Rightarrow> 'r view poll_state \<Rightarrow> (error + unit, 'r view poll_state) iteration" where
  "inline_iteration be s =
     (let s1 = s\<lparr>status_requests := status_requests s + 1\<rparr> in
      case status_endpoint be (status_requests s) of
        Rejects m \<Rightarrow> Stop (Inl (Error m)) s1
      | Response code body \<Rightarrow>
          (case body of
             Inl m \<Rightarrow> Stop (Inl (Error m)) s1
           | Inr statusData \<Rightarrow>
               let s2 = s1\<lparr>user := (user s1)\<lparr>progress_bar := progress statusData\<rparr>\<rparr> in
               if status statusData = ''completed'' then
                 (let s3 = s2\<lparr>result_requests := result_requests s2 + 1\<rparr> in
                  case result_endpoint be (result_requests s2) of
                    Rejects m \<Rightarrow> Stop (Inl (Error m)) s3
                  | Response rcode rbody \<Rightarrow>
                      (case rbody of
                         Inl m \<Rightarrow> Stop (Inl (Error m)) s3
                       | Inr r \<Rightarrow>
                           Stop (Inr ()) (s3\<lparr>user := (user s3)\<lparr>shown := Some r, activeTab := 0\<rparr>\<rparr>)))
               else if status statusData = ''failed''
                 then Stop (Inl (Error (message statusData))) s2
               else Continue (s2\<lparr>delays := delays s2 @ [2000]\<rparr>)))"

text \<open>The loops have no attempt counter; a run that never leaves the loop is \<open>None\<close>.\<close>

partial_function (option) processImage_poll ::
  "'r backend \<Rightarrow> 'r view poll_state \<Rightarrow> ((error + unit) \<times> 'r view poll_state) option" where
  "processImage_poll be s =
     (case inline_iteration be s of
        Stop x s' \<Rightarrow> Some (x, s')
      | Continue s' \<Rightarrow> processImage_poll be s')"

partial_function (option) processDocument_poll ::
  "'r backend \<Rightarrow> 'r view poll_state \<Rightarrow> ((error + unit) \<times> 'r view poll_state) option" where
  "processDocument_poll be s =
     (case inline_iteration be s of
        Stop x s' \<Rightarrow> Some (x, s')
      | Continue s' \<Rightarrow> processDocument_poll be s')"

text \<open>A backend that never reports a job as completed or failed.\<close>

definition never_settles :: "'r backend \<Rightarrow> bool" where
  "never_settles be =
     (\<forall>k. \<exists>code st. status_endpoint be k = Response code (Inr st)
         \<and> status st \<noteq> ''completed'' \<and> status st \<noteq> ''failed'')"

subsection \<open>Example backends\<close>

definition reply :: "string \<Rightarrow> int \<Rightarrow> string \<Rightarrow> 'r option \<Rightarrow> 'r ProcessingStatus fetch" where
  "reply st p m r =
     Response 200 (Inr \<lparr>job_id = ''job-1'', status = st, progress = p, message = m, result = r\<rparr>)"

definition failed_then_completed :: "string backend" where
  "failed_then_completed =
     \<lparr>status_endpoint = (\<lambda>k. if k = 0 then reply ''failed'' 0 ''bad audio'' None
                              else reply ''completed'' 100 ''done'' (Some ''transcript'')),
      result_endpoint = (\<lambda>k. Rejects ''unused'')\<rparr>"

definition network_error_after_three_polls :: "string backend" where
  "network_error_after_three_polls =
     \<lparr>status_endpoint = (\<lambda>k. if k < 3 then reply ''processing'' 10 ''working'' None
                              else if k = 3 then Rejects ''Failed to fetch''
                              else reply ''completed'' 100 ''done'' (Some ''transcript'')),
      result_endpoint = (\<lambda>k. Rejects ''unused'')\<rparr>"

definition always_processing :: "string backend" where
  "always_processing =
     \<lparr>status_endpoint = (\<lambda>k. reply ''processing'' 40 ''working'' None),
      result_endpoint = (\<lambda>k. Rejects ''unused'')\<rparr>"


section \<open>The uploaders' \<^verbatim>\<open>validateFile\<close> and \<^verbatim>\<open>handleFile\<close>\<close>

text \<open>The fields of a browser \<^verbatim>\<open>File\<close> that validation reads.\<close>

record File =
  file_name :: string
  file_type :: string
  file_size :: nat

definition maxSize :: nat where
  "maxSize = 50 * 1024 * 1024"

text \<open>\<^verbatim>\<open>name.match(/\.(e1|e2|...)$/i)\<close> as a truth value.\<close>

definition match_extension :: "string list \<Rightarrow> string \<Rightarrow> bool" where
  "match_extension exts name = list_ex (\<lambda>e. endsWith (map fold_case name) (''.'' @ e)) exts"

text \<open>
  \<^verbatim>\<open>validateFile\<close> returns a boolean and writes the component's \<^verbatim>\<open>error\<close> state; the
  model returns both.
\<close>

definition AudioUpload_validTypes :: "string list" where
  "AudioUpload_validTypes = [''audio/mp3'', ''audio/wav'', ''audio/m4a'', ''audio/mpeg'', ''audio/ogg'']"

definition AudioUpload_validateFile :: "File \<Rightarrow> bool \<times> string option" where
  "AudioUpload_validateFile file =
     (if file_type file \<notin> set AudioUpload_validTypes
         \<and> \<not> match_extension [''mp3'', ''wav'', ''m4a'', ''ogg''] (file_name file)
      then (False, Some ''Please upload a valid audio file (MP3, WAV, M4A, OGG)'')
      else if file_size file > maxSize then (False, Some ''File size must be less than 50MB'')
      else (True, None))"

definition ImageUpload_validTypes :: "string list" where
  "ImageUpload_validTypes = [''image/jpeg'', ''image/jpg'', ''image/png'', ''image/gif'', ''image/bmp'']"

definition ImageUpload_validateFile :: "File \<Rightarrow> bool \<times> string option" where
  "ImageUpload_validateFile file =
     (if file_type file \<notin> set ImageUpload_validTypes
         \<and> \<not> match_extension [''jpg'', ''jpeg'', ''png'', ''gif'', ''bmp''] (file_name file)
      then (False, Some ''Please upload a valid image file (JPG, PNG, GIF, BMP)'')
      else if file_size file > maxSize then (False, Some ''File size must be less than 50MB'')
      else (True, None))"

definition DocumentUpload_validTypes :: "string list" where
  "DocumentUpload_validTypes =
     [''application/pdf'', ''application/msword'',
      ''application/vnd.openxmlformats-officedocument.wordprocessingml.document'',
      ''text/plain'']"

definition DocumentUpload_validateFile :: "File \<Rightarrow> bool \<times> string option" where
  "DocumentUpload_validateFile file =
     (let fileExtension = toLowerCase (file_name file);
          isValidExtension = (endsWith fileExtension ''.pdf'' \<or> endsWith fileExtension ''.doc''
                              \<or> endsWith fileExtension ''.docx'' \<or> endsWith fileExtension ''.txt'')
      in
      if file_type file \<notin> set DocumentUpload_validTypes \<and> \<not> isValidExtension
      then (False, Some ''Please upload a valid document file (PDF, DOC, DOCX, TXT)'')
      else if file_size file > maxSize then (False, Some ''File size must be less than 50MB'')
      else (True, None))"

text \<open>
  \<^verbatim>\<open>handleFile\<close>: the files handed to \<^verbatim>\<open>onFileSelect\<close> (none or the one file) and the
  error state. The uploaders send no request themselves; a file reaches the network only
  through \<^verbatim>\<open>onFileSelect\<close>.
\<close>

definition AudioUpload_handleFile :: "File \<Rightarrow> File list \<times> string option" where
  "AudioUpload_handleFile file =
     (case AudioUpload_validateFile file of (valid, err) \<Rightarrow> (if valid then [file] else [], err))"

definition ImageUpload_handleFile :: "File \<Rightarrow> File list \<times> string option" where
  "ImageUpload_handleFile file =
     (case ImageUpload_validateFile file of (valid, err) \<Rightarrow> (if valid then [file] else [], err))"

definition DocumentUpload_handleFile :: "File \<Rightarrow> File list \<times> string option" where
  "DocumentUpload_handleFile file =
     (case DocumentUpload_validateFile file of (valid, err) \<Rightarrow> (if valid then [file] else [], err))"

subsection \<open>The allow-lists as the specification words them\<close>

text \<open>
  The specification lists, per skill, the types \<open>{mp3, wav, m4a, ogg}\<close>,
  \<open>{jpeg, png, gif, bmp}\<close> and \<open>{pdf, doc, docx, txt}\<close>. Read by the letter, a file's
  type/extension is in such a list when the extension of its name (after the last dot,
  case ignored) or the subtype of its MIME type (after the slash) is one of the listed
  words.
\<close>

definition documented_audio :: "string list" where
  "documented_audio = [''mp3'', ''wav'', ''m4a'', ''ogg'']"

definition documented_image :: "string list" where
  "documented_image = [''jpeg'', ''png'', ''gif'', ''bmp'']"

definition documented_document :: "string list" where
  "documented_document = [''pdf'', ''doc'', ''docx'', ''txt'']"

definition extension_of :: "string \<Rightarrow> string" where
  "extension_of name =
     (if CHR ''.'' \<in> set name then rev (takeWhile (\<lambda>c. c \<noteq> CHR ''.'') (rev name)) else [])"

definition subtype_of :: "string \<Rightarrow> string" where
  "subtype_of t = (if CHR ''/'' \<in> set t then tl (dropWhile (\<lambda>c. c \<noteq> CHR ''/'') t) else [])"

definition documented_accepts :: "string list \<Rightarrow> File \<Rightarrow> bool" where
  "documented_accepts allowed file =
     ((map fold_case (extension_of (file_name file)) \<in> set allowed
        \<or> subtype_of (file_type file) \<in> set allowed)
      \<and> file_size file \<le> maxSize)"

section \<open>\<^verbatim>\<open>DiarizationService\<close>\<close>

record DiarizedSegment =
  speaker :: string
  segment_text :: string
  timestamp :: string

text \<open>\<^verbatim>\<open>transcript.split('\n\n')\<close>: cut at each blank-line separator, left to right.\<close>

fun split_paragraphs :: "string \<Rightarrow> string \<Rightarrow> string list" where
  "split_paragraphs cur (a # b # rest) =
     (if a = CHR 0x0A \<and> b = CHR 0x0A then cur # split_paragraphs [] rest
      else split_paragraphs (cur @ [a]) (b # rest))"
| "split_paragraphs cur [a] = [cur @ [a]]"
| "split_paragraphs cur [] = [cur]"

text \<open>A segment is the pair of its trimmed text and its index among the kept lines.\<close>

definition parseTranscriptSegments :: "string \<Rightarrow> (string \<times> nat) list" where
  "parseTranscriptSegments transcript =
     (let lines = filter (\<lambda>line. length (trim line) > 0) (split_paragraphs [] transcript)
      in map (\<lambda>(index, line). (trim line, index)) (enumerate 0 lines))"

text \<open>
  \<^verbatim>\<open>\s*(.+)\<close> at the start of a string. The whitespace is taken greedily; when nothing
  is left for \<^verbatim>\<open>.+\<close> the matcher gives whitespace back from the right until
  \<^verbatim>\<open>.\<close> finds a character that is not a line terminator. The result is group 2.
\<close>

definition match_tail :: "string \<Rightarrow> string option" where
  "match_tail body =
     (let rest = dropWhile is_space body in
      if rest \<noteq> [] then Some (takeWhile (\<lambda>c. \<not> is_line_terminator c) rest)
      else (case rev (filter (\<lambda>c. \<not> is_line_terminator c) body) of
              [] \<Rightarrow> None
            | c # _ \<Rightarrow> Some [c]))"

text \<open>\<^verbatim>\<open>text.match(/^(Speaker \d+):\s*(.+)/)\<close>: groups 1 and 2 of the match, if any.\<close>

definition match_speaker_label :: "string \<Rightarrow> (string \<times> string) option" where
  "match_speaker_label txt =
     (if startsWith txt ''Speaker '' then
        (let after = drop 8 txt;
             digits = takeWhile is_digit after;
             rest = dropWhile is_digit after
         in
         if digits \<noteq> [] \<and> startsWith rest '':'' then
           (case match_tail (drop 1 rest) of
              None \<Rightarrow> None
            | Some cleaned \<Rightarrow> Some (''Speaker '' @ digits, cleaned))
         else None)
      else None)"

text \<open>\<^verbatim>\<open>pattern.test(text)\<close> for a pattern of literal characters under the \<^verbatim>\<open>i\<close>
  flag: the pattern occurs somewhere in the text, case ignored.\<close>

fun occurs_in :: "string \<Rightarrow> string \<Rightarrow> bool" where
  "occurs_in p [] = (p = [])"
| "occurs_in p (c # cs) = (startsWith (c # cs) p \<or> occurs_in p cs)"

definition regex_test :: "string \<Rightarrow> string \<Rightarrow> bool" where
  "regex_test pattern txt = occurs_in (map fold_case pattern) (map fold_case txt)"

definition customerServicePatterns :: "string list" where
  "customerServicePatterns =
     [''thank you for calling'', ''how can I help'', ''let me check'', ''I can see'',
      ''I'' @ [CHR 0x27] @ ''ll make sure'', ''is there anything else'']"

definition customerPatterns :: "string list" where
  "customerPatterns =
     [''I'' @ [CHR 0x27] @ ''m having an issue'', ''I placed an order'', ''can you tell me'',
      ''that'' @ [CHR 0x27] @ ''s very generous'', ''thank you so much'',
      ''no, that covers everything'']"

definition isCustomerService :: "string \<Rightarrow> bool" where
  "isCustomerService txt = list_ex (\<lambda>pattern. regex_test pattern txt) customerServicePatterns"

definition isCustomer :: "string \<Rightarrow> bool" where
  "isCustomer txt = list_ex (\<lambda>pattern. regex_test pattern txt) customerPatterns"

text \<open>\<^verbatim>\<open>determineSpeaker\<close> returns the pair of \<^verbatim>\<open>speaker\<close> and \<^verbatim>\<open>cleanedText\<close>.\<close>

definition determineSpeaker :: "string \<Rightarrow> nat \<Rightarrow> string \<times> string" where
  "determineSpeaker txt index =
     (case match_speaker_label txt of
        Some speakerMatch \<Rightarrow> speakerMatch
      | None \<Rightarrow>
          (if isCustomerService txt then ''Speaker 1''
           else if isCustomer txt then ''Speaker 2''
           else if index mod 2 = 0 then ''Speaker 1'' else ''Speaker 2'',
           txt))"

text \<open>A segment that carries no label the matcher recognises and fits neither pattern
  list.\<close>

definition unclassified :: "string \<Rightarrow> bool" where
  "unclassified txt =
     (match_speaker_label txt = None \<and> \<not> isCustomerService txt \<and> \<not> isCustomer txt)"

text \<open>
  \<^verbatim>\<open>generateTimestamp\<close>: 10:00:00 plus 15 seconds per segment, printed as
  two-digit hours, minutes and seconds on a 24-hour clock that starts the day at 00.
\<close>

definition two_digits :: "nat \<Rightarrow> string" where
  "two_digits n = [''0123456789'' ! (n div 10 mod 10), ''0123456789'' ! (n mod 10)]"

definition generateTimestamp :: "nat \<Rightarrow> string" where
  "generateTimestamp index =
     (let seconds = 10 * 3600 + index * 15 in
      two_digits (seconds div 3600 mod 24) @ '':'' @ two_digits (seconds div 60 mod 60)
        @ '':'' @ two_digits (seconds mod 60))"

definition identifySpeakers :: "(string \<times> nat) list \<Rightarrow> DiarizedSegment list" where
  "identifySpeakers segments =
     map (\<lambda>(txt, index).
            case determineSpeaker txt index of
              (who, cleanedText) \<Rightarrow>
                \<lparr>speaker = who, segment_text = cleanedText, timestamp = generateTimestamp index\<rparr>)
         segments"

definition diarizeTranscript :: "string \<Rightarrow> DiarizedSegment list" where
  "diarizeTranscript transcript = identifySpeakers (parseTranscriptSegments transcript)"

section \<open>\<^verbatim>\<open>TranscriptService.generateSummary\<close>\<close>

definition is_terminator :: "char \<Rightarrow> bool" where
  "is_terminator c = (c \<in> set ''.!?'')"

text \<open>\<^verbatim>\<open>transcript.split(/[.!?]+/)\<close>: cut at each maximal run of terminators.\<close>

function split_sentences :: "string \<Rightarrow> string \<Rightarrow> string list" where
  "split_sentences cur [] = [cur]"
| "split_sentences cur (c # cs) =
     (if is_terminator c then cur # split_sentences [] (dropWhile is_terminator cs)
      else split_sentences (cur @ [c]) cs)"
  by pat_completeness auto
termination
  by (relation "measure (\<lambda>(cur, s). length s)") (auto simp: length_dropWhile_le less_Suc_eq_le)

definition sentences_of :: "string \<Rightarrow> string list" where
  "sentences_of transcript = filter (\<lambda>s. length (trim s) > 0) (split_sentences [] transcript)"

definition generateSummary :: "string \<Rightarrow> string" where
  "generateSummary transcript =
     (let sentences = sentences_of transcript in
      if length sentences \<le> 3 then transcript
      else join ''. '' [sentences ! 0,
                        sentences ! (length sentences div 2),
                        sentences ! (length sentences - 1)] @ ''.'')"

subsection \<open>The split as the claim words it\<close>

text \<open>
  A transcript splits on sentence terminators into pieces \<open>p0, ..., pk\<close> separated by
  runs \<open>r1, ..., rk\<close>: the transcript is \<open>p0 r1 p1 ... rk pk\<close>, every run is a
  non-empty string of terminators, no piece holds a terminator, and every piece but the
  first and the last is non-empty, so that the runs are maximal.
\<close>

fun weave :: "string list \<Rightarrow> string list \<Rightarrow> string" where
  "weave (p # ps) (r # rs) = p @ r @ weave ps rs"
| "weave ps [] = concat ps"
| "weave [] rs = concat rs"

definition splits_at_terminators :: "string \<Rightarrow> string list \<Rightarrow> string list \<Rightarrow> bool" where
  "splits_at_terminators transcript pieces runs =
     (length pieces = length runs + 1
      \<and> (\<forall>p\<in>set pieces. \<forall>c\<in>set p. \<not> is_terminator c)
      \<and> (\<forall>r\<in>set runs. r \<noteq> [] \<and> (\<forall>c\<in>set r. is_terminator c))
      \<and> (\<forall>p\<in>set (butlast (tl pieces)). p \<noteq> [])
      \<and> weave pieces runs = transcript)"

text \<open>A piece is non-empty when it has a character, non-blank when it has a character
  that is not whitespace.\<close>

definition non_blank :: "string \<Rightarrow> bool" where
  "non_blank s = (\<exists>c\<in>set s. \<not> is_space c)"

section \<open>Properties of the job poller\<close>

lemma try_block_Next:
  assumes "status_endpoint be (status_requests s) = Response code (Inr st)" "ok code"
    "status st \<noteq> ''completed''" "status st \<noteq> ''failed''"
  shows "try_block be onProgress s =
     (Next, s\<lparr>status_requests := status_requests s + 1,
              user := (case onProgress of None \<Rightarrow> user s
                       | Some f \<Rightarrow> f (progress st) (message st) (user s))\<rparr>)"
  using assms by (simp add: try_block_def Let_def split: option.split)

lemma try_block_requests:
  "status_requests (snd (try_block be onProgress s)) = status_requests s + 1"
  by (simp add: try_block_def Let_def split: fetch.split sum.split option.split)

text \<open>
  While the backend answers with a status that is neither completed nor failed, the loop
  polls until the attempt counter reaches its bound: one request and one 5-second delay
  per remaining attempt, then the timeout error.
\<close>

lemma pollLoop_keeps_polling:
  assumes "maxAttempts - a = n"
    and "\<forall>k < n. \<exists>code st. status_endpoint be (status_requests s + k) = Response code (Inr st)
             \<and> ok code \<and> status st \<noteq> ''completed'' \<and> status st \<noteq> ''failed''"
  shows "fst (pollLoop be onProgress a s) = Inl Timeout
       \<and> status_requests (snd (pollLoop be onProgress a s)) = status_requests s + n
       \<and> delays (snd (pollLoop be onProgress a s)) = delays s @ replicate n 5000"
  using assms
proof (induction n arbitrary: a s)
  case 0
  then show ?case by (simp add: pollLoop.simps[of be onProgress a s])
next
  case (Suc n)
  then have lt: "a < maxAttempts" and n: "maxAttempts - (a + 1) = n" by simp_all
  from Suc.prems(2) obtain code st where
    r: "status_endpoint be (status_requests s) = Response code (Inr st)" "ok code"
       "status st \<noteq> ''completed''" "status st \<noteq> ''failed''"
    by (metis add.right_neutral zero_less_Suc)
  define s' where "s' = s\<lparr>status_requests := status_requests s + 1,
      user := (case onProgress of None \<Rightarrow> user s
               | Some f \<Rightarrow> f (progress st) (message st) (user s))\<rparr>"
  define s'' where "s'' = s'\<lparr>delays := delays s' @ [5000]\<rparr>"
  have tb: "try_block be onProgress s = (Next, s')"
    unfolding s'_def by (rule try_block_Next[OF r])
  have unfold: "pollLoop be onProgress a s = pollLoop be onProgress (a + 1) s''"
    using lt tb by (simp add: pollLoop.simps[of be onProgress a s] s''_def)
  have req: "status_requests s'' = status_requests s + 1"
    and del: "delays s'' = delays s @ [5000]"
    by (simp_all add: s''_def s'_def)
  have "\<forall>k < n. \<exists>code st.
          status_endpoint be (status_requests s'' + k) = Response code (Inr st)
             \<and> ok code \<and> status st \<noteq> ''completed'' \<and> status st \<noteq> ''failed''"
  proof (intro allI impI)
    fix k assume "k < n"
    then have "Suc k < Suc n" by simp
    with Suc.prems(2) have "\<exists>code st.
        status_endpoint be (status_requests s + Suc k) = Response code (Inr st)
          \<and> ok code \<and> status st \<noteq> ''completed'' \<and> status st \<noteq> ''failed''" by blast
    then show "\<exists>code st. status_endpoint be (status_requests s'' + k) = Response code (Inr st)
             \<and> ok code \<and> status st \<noteq> ''completed'' \<and> status st \<noteq> ''failed''"
      by (simp add: req)
  qed
  from Suc.IH[OF n this] show ?case
    unfolding unfold req del by simp
qed

text \<open>Whatever the backend does, the loop sends at most one status request per attempt.\<close>

lemma pollLoop_requests_bound:
  "status_requests (snd (pollLoop be onProgress a s)) \<le> status_requests s + (maxAttempts - a)"
proof (induction be onProgress a s rule: pollLoop.induct)
  case (1 be onProgress attempts s)
  note unf = pollLoop.simps[of be onProgress attempts s]
  show ?case
  proof (cases "attempts < maxAttempts")
    case False
    then show ?thesis by (simp add: unf)
  next
    case True
    obtain out s' where tb: "try_block be onProgress s = (out, s')" by force
    have req: "status_requests s' = status_requests s + 1"
      using try_block_requests[of be onProgress s] tb by simp
    show ?thesis
    proof (cases out)
      case (Return r)
      with True tb req show ?thesis by (simp add: unf)
    next
      case Next
      with 1(2)[OF True tb[symmetric] Next] True tb req show ?thesis by (simp add: unf)
    next
      case (Throw e)
      show ?thesis
      proof (cases "attempts < 3")
        case a3: True
        with 1(1)[OF True tb[symmetric] Throw a3] Throw True tb req show ?thesis
          by (simp add: unf)
      next
        case False
        with Throw True tb req show ?thesis by (simp add: unf)
      qed
    qed
  qed
qed



text \<open>
  What the \<^verbatim>\<open>catch\<close> block does with a failed job and with a rejected fetch: during
  the first three attempts the error is dropped and the poll repeated after 2 seconds;
  from the fourth attempt on it is thrown to the caller.
\<close>

lemma pollLoop_failed_status:
  assumes "a < maxAttempts"
    and "status_endpoint be (status_requests s) = Response code (Inr st)" "ok code"
    and "status st = ''failed''"
  shows "pollLoop be None a s =
     (if a < 3
      then pollLoop be None (a + 1)
             (s\<lparr>status_requests := status_requests s + 1, delays := delays s @ [2000]\<rparr>)
      else (Inl (ProcessingFailed (message st)), s\<lparr>status_requests := status_requests s + 1\<rparr>))"
  using assms by (simp add: pollLoop.simps[of be None a s] try_block_def)

lemma pollLoop_fetch_rejects:
  assumes "a < maxAttempts"
    and "status_endpoint be (status_requests s) = Rejects m"
  shows "pollLoop be onProgress a s =
     (if a < 3
      then pollLoop be onProgress (a + 1)
             (s\<lparr>status_requests := status_requests s + 1, delays := delays s @ [2000]\<rparr>)
      else (Inl (Error m), s\<lparr>status_requests := status_requests s + 1\<rparr>))"
  using assms by (simp add: pollLoop.simps[of be onProgress a s] try_block_def)

text \<open>
  C1. A status response \<open>failed\<close> with message \<open>bad audio\<close> should make the poller fail
  with that message, whatever came before. The \<^verbatim>\<open>throw\<close> for a failed job sits inside
  the \<^verbatim>\<open>try\<close> block, so the \<^verbatim>\<open>catch\<close> block written for network errors takes it:
  during the first three attempts the failure is dropped and the poll repeated after 2
  seconds. Here the first response is the failure and the second reports completion; the
  poller returns the result.
\<close>

theorem pollForResults_swallows_early_failure:
  "pollForResults failed_then_completed None () =
     (Inr ''transcript'',
      \<lparr>status_requests = 2, result_requests = 0, delays = [2000], user = ()\<rparr>)"
  by code_simp

text \<open>
  C2. A network failure should be retried up to 3 times however many polls succeeded
  before it. The retry test reads the loop's one attempt counter, which successful polls
  advance too: after three answered polls the first network error is thrown to the caller
  at once, with no 2-second delay and no further request.
\<close>

theorem pollForResults_no_retry_after_three_polls:
  "pollForResults network_error_after_three_polls None () =
     (Inl (Error ''Failed to fetch''),
      \<lparr>status_requests = 4, result_requests = 0, delays = [5000, 5000, 5000], user = ()\<rparr>)"
  by code_simp

text \<open>
  C3. When the first 120 status responses all say \<open>processing\<close>, the poller sends exactly
  120 status requests, waiting 5 seconds after each, and then fails with the timeout
  error.
\<close>

theorem pollForResults_timeout:
  assumes "\<forall>k < 120. \<exists>code st. status_endpoint be k = Response code (Inr st) \<and> ok code
             \<and> status st = ''processing''"
  shows "fst (pollForResults be onProgress u) = Inl Timeout
       \<and> status_requests (snd (pollForResults be onProgress u)) = 120
       \<and> delays (snd (pollForResults be onProgress u)) = replicate 120 5000"
proof -
  have n: "maxAttempts - 0 = 120" by (simp add: maxAttempts_def)
  have "\<forall>k < 120. \<exists>code st.
          status_endpoint be (status_requests (initial u) + k) = Response code (Inr st)
             \<and> ok code \<and> status st \<noteq> ''completed'' \<and> status st \<noteq> ''failed''"
  proof (intro allI impI)
    fix k :: nat assume "k < 120"
    with assms obtain code st where "status_endpoint be k = Response code (Inr st)" "ok code"
      "status st = ''processing''" by blast
    then show "\<exists>code st.
        status_endpoint be (status_requests (initial u) + k) = Response code (Inr st)
          \<and> ok code \<and> status st \<noteq> ''completed'' \<and> status st \<noteq> ''failed''"
      by (simp add: initial_def)
  qed
  from pollLoop_keeps_polling[OF n this, of onProgress]
  show ?thesis by (simp add: pollForResults_def initial_def)
qed

theorem pollForResults_timeout_witness:
  "fst (pollForResults always_processing None ()) = Inl Timeout
   \<and> status_requests (snd (pollForResults always_processing None ())) = 120
   \<and> delays (snd (pollForResults always_processing None ())) = replicate 120 5000"
proof -
  have h: "\<forall>k < 120. \<exists>code st.
      status_endpoint always_processing k = Response code (Inr st) \<and> ok code
        \<and> status st = ''processing''"
    by (simp add: always_processing_def reply_def ok_def)
  from pollForResults_timeout[OF h, of None "()"] show ?thesis .
qed



section \<open>Properties of the inline poll loops\<close>

lemma inline_iteration_Continue:
  assumes "never_settles be"
  shows "\<exists>s'. inline_iteration be s = Continue s'"
proof -
  from assms obtain code st where
    "status_endpoint be (status_requests s) = Response code (Inr st)"
    "status st \<noteq> ''completed''" "status st \<noteq> ''failed''"
    unfolding never_settles_def by blast
  then show ?thesis by (simp add: inline_iteration_def Let_def)
qed

text \<open>Against a backend that never settles, neither inline loop returns.\<close>

lemma processImage_poll_None:
  assumes "never_settles be"
  shows "processImage_poll be s = None"
proof (cases "processImage_poll be s")
  case None
  then show ?thesis .
next
  case (Some y)
  have "\<not> never_settles be"
  proof (rule processImage_poll.raw_induct[where P = "\<lambda>b s y. \<not> never_settles b", OF _ Some])
    fix f b s y
    assume IH: "\<And>b s y. f b s = Some y \<Longrightarrow> \<not> never_settles b"
      and step: "(case inline_iteration b s of Stop x s' \<Rightarrow> Some (x, s')
                  | Continue s' \<Rightarrow> f b s') = Some y"
    show "\<not> never_settles b"
    proof
      assume ns: "never_settles b"
      then obtain s' where "inline_iteration b s = Continue s'"
        using inline_iteration_Continue by blast
      with step have "f b s' = Some y" by simp
      from IH[OF this] ns show False by simp
    qed
  qed
  with assms show ?thesis by simp
qed

lemma processDocument_poll_None:
  assumes "never_settles be"
  shows "processDocument_poll be s = None"
proof (cases "processDocument_poll be s")
  case None
  then show ?thesis .
next
  case (Some y)
  have "\<not> never_settles be"
  proof (rule processDocument_poll.raw_induct[where P = "\<lambda>b s y. \<not> never_settles b", OF _ Some])
    fix f b s y
    assume IH: "\<And>b s y. f b s = Some y \<Longrightarrow> \<not> never_settles b"
      and step: "(case inline_iteration b s of Stop x s' \<Rightarrow> Some (x, s')
                  | Continue s' \<Rightarrow> f b s') = Some y"
    show "\<not> never_settles b"
    proof
      assume ns: "never_settles b"
      then obtain s' where "inline_iteration b s = Continue s'"
        using inline_iteration_Continue by blast
      with step have "f b s' = Some y" by simp
      from IH[OF this] ns show False by simp
    qed
  qed
  with assms show ?thesis by simp
qed

text \<open>
  C4. Every poll loop should stop once an attempt bound is exhausted. The loop of
  \<open>pollForResults\<close> does: it counts attempts up to 120. The loops inside
  \<^verbatim>\<open>processImage\<close> and \<^verbatim>\<open>processDocument\<close> are \<^verbatim>\<open>while (true)\<close> with no counter:
  against a backend that answers \<open>processing\<close> forever they never return, while
  \<open>pollForResults\<close> gives up after 120 requests.
\<close>

theorem inline_polls_never_stop:
  "processImage_poll always_processing
     (initial \<lparr>progress_bar = 0, shown = None, activeTab = 0\<rparr>) = None
   \<and> processDocument_poll always_processing
     (initial \<lparr>progress_bar = 0, shown = None, activeTab = 0\<rparr>) = None
   \<and> fst (pollForResults always_processing None ()) = Inl Timeout
   \<and> status_requests (snd (pollForResults always_processing None ())) = 120"
proof -
  have ns: "never_settles always_processing"
    by (simp add: never_settles_def always_processing_def reply_def)
  have "\<forall>k < 120. \<exists>code st.
      status_endpoint always_processing (status_requests (initial ()) + k) = Response code (Inr st)
        \<and> ok code \<and> status st \<noteq> ''completed'' \<and> status st \<noteq> ''failed''"
    by (simp add: always_processing_def reply_def ok_def)
  from pollLoop_keeps_polling[OF _ this, of 0 None] ns show ?thesis
    by (simp add: processImage_poll_None processDocument_poll_None pollForResults_def
        maxAttempts_def initial_def)
qed

section \<open>Properties of the uploaders\<close>

lemma endsWith_iff: "endsWith s p \<longleftrightarrow> (\<exists>stem. s = stem @ p)"
proof
  assume "endsWith s p"
  then have "s = take (length s - length p) s @ p"
    by (metis append_take_drop_id endsWith_def)
  then show "\<exists>stem. s = stem @ p" ..
next
  assume "\<exists>stem. s = stem @ p"
  then show "endsWith s p" by (auto simp: endsWith_def)
qed

lemma match_extension_iff:
  "match_extension exts name \<longleftrightarrow> (\<exists>stem e. e \<in> set exts \<and> map fold_case name = stem @ ''.'' @ e)"
  unfolding match_extension_def list_ex_iff endsWith_iff by blast

text \<open>
  C6, as stated: each uploader accepts a file exactly when its type/extension is in the
  documented allow-list and its size is at most 50MB. The audio uploader's list of MIME
  types also holds \<open>audio/mpeg\<close>, the type browsers report for \<open>.mp2\<close> and \<open>.mpga\<close>
  files as well as for \<open>.mp3\<close>: a small file \<open>old.mp2\<close> of that type is accepted, though
  neither \<open>mp2\<close> nor \<open>mpeg\<close> is in \<open>{mp3, wav, m4a, ogg}\<close>.
\<close>

theorem AudioUpload_accepts_undocumented_type:
  "fst (AudioUpload_validateFile \<lparr>file_name = ''old.mp2'', file_type = ''audio/mpeg'', file_size = 1000\<rparr>)
   \<and> \<not> documented_accepts documented_audio
         \<lparr>file_name = ''old.mp2'', file_type = ''audio/mpeg'', file_size = 1000\<rparr>"
  by (simp add: AudioUpload_validateFile_def AudioUpload_validTypes_def maxSize_def
      documented_accepts_def documented_audio_def extension_of_def subtype_of_def fold_case_def)

lemma validate_shape:
  "fst (if ty \<notin> T \<and> \<not> ext then (False, e1)
        else if maxSize < sz then (False, e2) else (True, e3))
   \<longleftrightarrow> (ty \<in> T \<or> ext) \<and> sz \<le> maxSize"
  by auto

lemma AudioUpload_accepts:
  "fst (AudioUpload_validateFile file) \<longleftrightarrow>
      (file_type file \<in> set [''audio/mp3'', ''audio/wav'', ''audio/m4a'', ''audio/mpeg'', ''audio/ogg'']
        \<or> (\<exists>stem e. e \<in> set [''mp3'', ''wav'', ''m4a'', ''ogg'']
              \<and> map fold_case (file_name file) = stem @ ''.'' @ e))
      \<and> file_size file \<le> maxSize"
  unfolding AudioUpload_validateFile_def AudioUpload_validTypes_def match_extension_iff[symmetric]
  by (rule validate_shape)

lemma ImageUpload_accepts:
  "fst (ImageUpload_validateFile file) \<longleftrightarrow>
      (file_type file \<in> set [''image/jpeg'', ''image/jpg'', ''image/png'', ''image/gif'', ''image/bmp'']
        \<or> (\<exists>stem e. e \<in> set [''jpg'', ''jpeg'', ''png'', ''gif'', ''bmp'']
              \<and> map fold_case (file_name file) = stem @ ''.'' @ e))
      \<and> file_size file \<le> maxSize"
  unfolding ImageUpload_validateFile_def ImageUpload_validTypes_def match_extension_iff[symmetric]
  by (rule validate_shape)

lemma endsWith_any:
  "(endsWith n (d @ a) \<or> endsWith n (d @ b) \<or> endsWith n (d @ c) \<or> endsWith n (d @ e))
      \<longleftrightarrow> (\<exists>stem x. x \<in> set [a, b, c, e] \<and> n = stem @ d @ x)"
  unfolding endsWith_iff by auto

lemma DocumentUpload_accepts:
  "fst (DocumentUpload_validateFile file) \<longleftrightarrow>
      (file_type file \<in> set [''application/pdf'', ''application/msword'',
            ''application/vnd.openxmlformats-officedocument.wordprocessingml.document'',
            ''text/plain'']
        \<or> (\<exists>stem e. e \<in> set [''pdf'', ''doc'', ''docx'', ''txt'']
              \<and> toLowerCase (file_name file) = stem @ ''.'' @ e))
      \<and> file_size file \<le> maxSize"
proof -
  have e: "(endsWith n ''.pdf'' \<or> endsWith n ''.doc'' \<or> endsWith n ''.docx'' \<or> endsWith n ''.txt'')
      \<longleftrightarrow> (\<exists>stem e. e \<in> set [''pdf'', ''doc'', ''docx'', ''txt''] \<and> n = stem @ ''.'' @ e)" for n
    using endsWith_any[of n "''.''" "''pdf''" "''doc''" "''docx''" "''txt''"]
    by (simp only: append.simps)
  show ?thesis
    unfolding DocumentUpload_validateFile_def Let_def e DocumentUpload_validTypes_def
    by (rule validate_shape)
qed

lemma maxSize_value: "maxSize = 52428800"
  by (simp add: maxSize_def)

text \<open>
  C6, amended. Each uploader accepts a file exactly when its size is at most
  \<open>50 * 1024 * 1024\<close> bytes and either its MIME type is in the uploader's own list of
  types or its name ends, case ignored, in a dot followed by one of the uploader's
  extensions. \<open>handleFile\<close> passes the file to \<open>onFileSelect\<close> exactly when it is
  accepted, so no file above 50MB leaves an uploader.
\<close>

theorem validateFile_accepts_iff:
  "(fst (AudioUpload_validateFile file) \<longleftrightarrow>
      (file_type file \<in> set [''audio/mp3'', ''audio/wav'', ''audio/m4a'', ''audio/mpeg'', ''audio/ogg'']
        \<or> (\<exists>stem e. e \<in> set [''mp3'', ''wav'', ''m4a'', ''ogg'']
              \<and> map fold_case (file_name file) = stem @ ''.'' @ e))
      \<and> file_size file \<le> 52428800)
   \<and> (fst (ImageUpload_validateFile file) \<longleftrightarrow>
      (file_type file \<in> set [''image/jpeg'', ''image/jpg'', ''image/png'', ''image/gif'', ''image/bmp'']
        \<or> (\<exists>stem e. e \<in> set [''jpg'', ''jpeg'', ''png'', ''gif'', ''bmp'']
              \<and> map fold_case (file_name file) = stem @ ''.'' @ e))
      \<and> file_size file \<le> 52428800)
   \<and> (fst (DocumentUpload_validateFile file) \<longleftrightarrow>
      (file_type file \<in> set [''application/pdf'', ''application/msword'',
            ''application/vnd.openxmlformats-officedocument.wordprocessingml.document'',
            ''text/plain'']
        \<or> (\<exists>stem e. e \<in> set [''pdf'', ''doc'', ''docx'', ''txt'']
              \<and> toLowerCase (file_name file) = stem @ ''.'' @ e))
      \<and> file_size file \<le> 52428800)
   \<and> fst (AudioUpload_handleFile file) = (if fst (AudioUpload_validateFile file) then [file] else [])
   \<and> fst (ImageUpload_handleFile file) = (if fst (ImageUpload_validateFile file) then [file] else [])
   \<and> fst (DocumentUpload_handleFile file)
        = (if fst (DocumentUpload_validateFile file) then [file] else [])
   \<and> (file_size file > 52428800 \<longrightarrow>
        fst (AudioUpload_handleFile file) = [] \<and> fst (ImageUpload_handleFile file) = []
        \<and> fst (DocumentUpload_handleFile file) = [])"
proof -
  have h: "fst (AudioUpload_handleFile file) = (if fst (AudioUpload_validateFile file) then [file] else [])"
    "fst (ImageUpload_handleFile file) = (if fst (ImageUpload_validateFile file) then [file] else [])"
    "fst (DocumentUpload_handleFile file) = (if fst (DocumentUpload_validateFile file) then [file] else [])"
    by (simp_all add: AudioUpload_handleFile_def ImageUpload_handleFile_def
        DocumentUpload_handleFile_def split: prod.split)
  have big: "file_size file > 52428800 \<Longrightarrow> \<not> fst (AudioUpload_validateFile file)
      \<and> \<not> fst (ImageUpload_validateFile file) \<and> \<not> fst (DocumentUpload_validateFile file)"
    by (simp add: AudioUpload_validateFile_def ImageUpload_validateFile_def
        DocumentUpload_validateFile_def Let_def maxSize_value)
  show ?thesis
    apply (intro conjI)
          apply (rule AudioUpload_accepts[unfolded maxSize_value])
         apply (rule ImageUpload_accepts[unfolded maxSize_value])
        apply (rule DocumentUpload_accepts[unfolded maxSize_value])
       apply (rule h(1))
      apply (rule h(2))
     apply (rule h(3))
    using big h apply simp
    done
qed

theorem validateFile_accepts_iff_witness:
  "file_size \<lparr>file_name = ''talk.mp3'', file_type = ''audio/mpeg'', file_size = 52428801\<rparr> > 52428800
   \<and> fst (AudioUpload_handleFile
            \<lparr>file_name = ''talk.mp3'', file_type = ''audio/mpeg'', file_size = 52428801\<rparr>) = []"
  using validateFile_accepts_iff[of
      "\<lparr>file_name = ''talk.mp3'', file_type = ''audio/mpeg'', file_size = 52428801\<rparr>"]
  by simp

section \<open>Properties of the diarizer\<close>

lemma parse_length:
  "length (parseTranscriptSegments t)
     = length (filter (\<lambda>line. length (trim line) > 0) (split_paragraphs [] t))"
  by (simp add: parseTranscriptSegments_def Let_def)

lemma parse_nth:
  assumes "i < length (parseTranscriptSegments t)"
  shows "snd (parseTranscriptSegments t ! i) = i"
  using assms by (simp add: parseTranscriptSegments_def Let_def nth_enumerate_eq)

lemma diarize_length: "length (diarizeTranscript t) = length (parseTranscriptSegments t)"
  by (simp add: diarizeTranscript_def identifySpeakers_def)

lemma diarize_nth:
  assumes "i < length (parseTranscriptSegments t)"
  shows "speaker (diarizeTranscript t ! i) = fst (determineSpeaker (fst (parseTranscriptSegments t ! i)) i)"
    and "segment_text (diarizeTranscript t ! i) = snd (determineSpeaker (fst (parseTranscriptSegments t ! i)) i)"
    and "timestamp (diarizeTranscript t ! i) = generateTimestamp i"
  using assms parse_nth[OF assms]
  by (auto simp add: diarizeTranscript_def identifySpeakers_def split: prod.split)

lemma match_tail_plain:
  assumes "\<forall>c\<in>set ws. is_space c" "body \<noteq> []" "\<not> is_space (hd body)"
    "\<forall>c\<in>set body. \<not> is_line_terminator c"
  shows "match_tail (ws @ body) = Some body"
proof -
  from assms(2) obtain b bs where b: "body = b # bs" by (cases body) auto
  have "dropWhile is_space (ws @ body) = body"
    using assms(1,3) b by (simp add: dropWhile_append2)
  moreover have "takeWhile (\<lambda>c. \<not> is_line_terminator c) body = body"
    using assms(4) by (simp add: takeWhile_eq_all_conv)
  ultimately show ?thesis using assms(2) by (simp add: match_tail_def)
qed

lemma colon_not_digit: "\<not> is_digit CHR '':''"
  by (simp add: is_digit_def)

lemma match_speaker_label_explicit:
  assumes "ds \<noteq> []" "\<forall>c\<in>set ds. is_digit c" "\<forall>c\<in>set ws. is_space c"
    and "body \<noteq> []" "\<not> is_space (hd body)" "\<forall>c\<in>set body. \<not> is_line_terminator c"
  shows "match_speaker_label (''Speaker '' @ ds @ '':'' @ ws @ body) = Some (''Speaker '' @ ds, body)"
proof -
  let ?txt = "''Speaker '' @ ds @ '':'' @ ws @ body"
  have s: "startsWith ?txt ''Speaker ''" by (simp add: startsWith_def)
  have d: "drop 8 ?txt = ds @ '':'' @ ws @ body" by simp
  have tw: "takeWhile is_digit (ds @ '':'' @ ws @ body) = ds"
    using assms(2) colon_not_digit by (simp add: takeWhile_append2)
  have dw: "dropWhile is_digit (ds @ '':'' @ ws @ body) = '':'' @ ws @ body"
    using assms(2) colon_not_digit by (simp add: dropWhile_append2)
  have c: "startsWith ('':'' @ ws @ body) '':''" by (simp add: startsWith_def)
  have t: "match_tail (drop 1 ('':'' @ ws @ body)) = Some body"
    using match_tail_plain[OF assms(3-6)] by simp
  show ?thesis
    unfolding match_speaker_label_def Let_def d tw dw t
    using s c assms(1) by (simp only: if_True option.case simp_thms)
qed

lemma match_speaker_label_Some:
  assumes "match_speaker_label txt = Some (label, cleaned)"
  shows "\<exists>ds. ds \<noteq> [] \<and> (\<forall>c\<in>set ds. is_digit c) \<and> label = ''Speaker '' @ ds
            \<and> startsWith txt (''Speaker '' @ ds @ '':'')"
proof -
  define after where "after = drop 8 txt"
  define ds where "ds = takeWhile is_digit after"
  define rest where "rest = dropWhile is_digit after"
  from assms have sw: "startsWith txt ''Speaker ''" and ne: "ds \<noteq> []" and col: "startsWith rest '':''"
    and lab: "label = ''Speaker '' @ ds"
    by (auto simp: match_speaker_label_def Let_def after_def ds_def rest_def
        split: if_splits option.splits)
  have dig: "\<forall>c\<in>set ds. is_digit c"
    unfolding ds_def by (auto dest: set_takeWhileD)
  have "txt = take 8 txt @ after" by (simp add: after_def)
  also have "take 8 txt = ''Speaker ''"
  proof -
    have "length ''Speaker '' = 8" by simp
    with sw show ?thesis unfolding startsWith_def by (simp only:)
  qed
  also have "after = ds @ rest" by (simp add: ds_def rest_def)
  also have "rest = '':'' @ drop 1 rest"
    using col by (metis append_take_drop_id startsWith_def length_Cons list.size(3) One_nat_def)
  finally have "txt = ''Speaker '' @ ds @ '':'' @ drop 1 rest" by simp
  then have "startsWith txt (''Speaker '' @ ds @ '':'')"
    by (metis append.assoc append_eq_conv_conj startsWith_def)
  with ne dig lab show ?thesis by blast
qed

lemma timestamp_0: "generateTimestamp 0 = ''10:00:00''"
  by (simp add: generateTimestamp_def two_digits_def)

text \<open>A label with nothing after it is not recognised as a label: \<^verbatim>\<open>(.+)\<close> needs a
  character.\<close>

lemma bare_label_not_recognised:
  "diarizeTranscript ''Speaker 2:'' =
     [\<lparr>speaker = ''Speaker 1'', segment_text = ''Speaker 2:'', timestamp = ''10:00:00''\<rparr>]"
proof -
  have p: "parseTranscriptSegments ''Speaker 2:'' = [(''Speaker 2:'', 0)]"
    by code_simp
  have d: "determineSpeaker ''Speaker 2:'' 0 = (''Speaker 1'', ''Speaker 2:'')"
    by code_simp
  show ?thesis
    by (simp add: diarizeTranscript_def identifySpeakers_def p d timestamp_0)
qed

text \<open>
  A segment that consists of \<open>Speaker N:\<close>, optional whitespace and a non-empty remainder
  on one line keeps its label and loses the prefix.
\<close>

lemma explicit_label_kept:
  assumes "i < length (parseTranscriptSegments transcript)"
    and "fst (parseTranscriptSegments transcript ! i) = ''Speaker '' @ ds @ '':'' @ ws @ body"
    and "ds \<noteq> []" "\<forall>c\<in>set ds. is_digit c" "\<forall>c\<in>set ws. is_space c"
    and "body \<noteq> []" "\<not> is_space (hd body)" "\<forall>c\<in>set body. \<not> is_line_terminator c"
  shows "speaker (diarizeTranscript transcript ! i) = ''Speaker '' @ ds
       \<and> segment_text (diarizeTranscript transcript ! i) = body"
  using diarize_nth(1,2)[OF assms(1)] match_speaker_label_explicit[OF assms(3-8)]
  by (simp add: assms(2) determineSpeaker_def)

lemma explicit_label_kept_example:
  "speaker (diarizeTranscript ''Speaker 2: Hi there'' ! 0) = ''Speaker 2''
   \<and> segment_text (diarizeTranscript ''Speaker 2: Hi there'' ! 0) = ''Hi there''"
proof -
  have p: "parseTranscriptSegments ''Speaker 2: Hi there'' = [(''Speaker 2: Hi there'', 0)]"
    by code_simp
  have "speaker (diarizeTranscript ''Speaker 2: Hi there'' ! 0) = ''Speaker '' @ ''2''
      \<and> segment_text (diarizeTranscript ''Speaker 2: Hi there'' ! 0) = ''Hi there''"
    by (rule explicit_label_kept[where ws = "'' ''"])
       (simp_all add: p is_digit_def is_space_def is_line_terminator_def code_unit_def)
  then show ?thesis by simp
qed

text \<open>
  C7. A segment that begins with \<open>Speaker 1:\<close> should come back with that label and with
  its text unchanged apart from the prefix. Group 2 of the label pattern is \<^verbatim>\<open>(.+)\<close>,
  and \<^verbatim>\<open>.\<close> stops at a line terminator: of a segment of two lines only the first line
  is returned.
\<close>

theorem multiline_segment_truncated:
  "diarizeTranscript ''Speaker 1: Hello\<newline>there'' =
     [\<lparr>speaker = ''Speaker 1'', segment_text = ''Hello'', timestamp = ''10:00:00''\<rparr>]"
proof -
  have p: "parseTranscriptSegments ''Speaker 1: Hello\<newline>there''
      = [(''Speaker 1: Hello\<newline>there'', 0)]"
    by code_simp
  have d: "determineSpeaker ''Speaker 1: Hello\<newline>there'' 0 = (''Speaker 1'', ''Hello'')"
    by code_simp
  show ?thesis
    by (simp add: diarizeTranscript_def identifySpeakers_def p d timestamp_0)
qed

lemma determineSpeaker_unclassified:
  assumes "unclassified txt"
  shows "determineSpeaker txt i = (if even i then ''Speaker 1'' else ''Speaker 2'', txt)"
  using assms by (simp add: unclassified_def determineSpeaker_def even_iff_mod_2_eq_zero)

text \<open>
  C8. A segment without a recognised label that fits neither pattern list gets its speaker
  from the parity of its position: \<open>Speaker 1\<close> at even positions, \<open>Speaker 2\<close> at odd
  ones, and its text unchanged. Two such segments in consecutive positions therefore get
  different speakers.
\<close>

theorem unclassified_segments_alternate:
  assumes "i < length (parseTranscriptSegments transcript)"
    and "unclassified (fst (parseTranscriptSegments transcript ! i))"
  shows "speaker (diarizeTranscript transcript ! i) = (if even i then ''Speaker 1'' else ''Speaker 2'')
       \<and> segment_text (diarizeTranscript transcript ! i) = fst (parseTranscriptSegments transcript ! i)
       \<and> (Suc i < length (parseTranscriptSegments transcript)
            \<and> unclassified (fst (parseTranscriptSegments transcript ! Suc i))
          \<longrightarrow> speaker (diarizeTranscript transcript ! Suc i)
                \<noteq> speaker (diarizeTranscript transcript ! i))"
proof -
  have here: "speaker (diarizeTranscript transcript ! i) = (if even i then ''Speaker 1'' else ''Speaker 2'')"
    "segment_text (diarizeTranscript transcript ! i) = fst (parseTranscriptSegments transcript ! i)"
    using diarize_nth(1,2)[OF assms(1)] determineSpeaker_unclassified[OF assms(2)] by simp_all
  have "speaker (diarizeTranscript transcript ! Suc i) \<noteq> speaker (diarizeTranscript transcript ! i)"
    if "Suc i < length (parseTranscriptSegments transcript)"
      and "unclassified (fst (parseTranscriptSegments transcript ! Suc i))"
  proof -
    have "speaker (diarizeTranscript transcript ! Suc i)
        = (if even (Suc i) then ''Speaker 1'' else ''Speaker 2'')"
      using diarize_nth(1)[OF that(1)] determineSpeaker_unclassified[OF that(2)] by simp
    with here(1) show ?thesis by simp
  qed
  with here show ?thesis by blast
qed

theorem unclassified_segments_alternate_witness:
  "speaker (diarizeTranscript ''Fine weather today\<newline>\<newline>Indeed it is'' ! 0)
     = ''Speaker 1''
   \<and> speaker (diarizeTranscript ''Fine weather today\<newline>\<newline>Indeed it is'' ! 1)
     = ''Speaker 2''"
proof -
  let ?t = "''Fine weather today\<newline>\<newline>Indeed it is''"
  have p: "parseTranscriptSegments ?t = [(''Fine weather today'', 0), (''Indeed it is'', 1)]"
    by code_simp
  have u0: "unclassified ''Fine weather today''" by code_simp
  have u1: "unclassified ''Indeed it is''" by code_simp
  have "speaker (diarizeTranscript ?t ! 0) = ''Speaker 1''"
    using unclassified_segments_alternate[of 0 ?t] u0 by (simp add: p)
  moreover have "speaker (diarizeTranscript ?t ! 1) = ''Speaker 2''"
    using unclassified_segments_alternate[of 1 ?t] u1 by (simp add: p)
  ultimately show ?thesis by simp
qed

text \<open>
  C9, as stated: every returned speaker is \<open>Speaker 1\<close> or \<open>Speaker 2\<close>. The label
  matcher takes any run of digits, and the label found is returned as it is.
\<close>

theorem third_speaker_label_returned:
  "diarizeTranscript ''Speaker 3: hi'' =
     [\<lparr>speaker = ''Speaker 3'', segment_text = ''hi'', timestamp = ''10:00:00''\<rparr>]"
proof -
  have p: "parseTranscriptSegments ''Speaker 3: hi'' = [(''Speaker 3: hi'', 0)]"
    by code_simp
  have d: "determineSpeaker ''Speaker 3: hi'' 0 = (''Speaker 3'', ''hi'')"
    by code_simp
  show ?thesis
    by (simp add: diarizeTranscript_def identifySpeakers_def p d timestamp_0)
qed

text \<open>
  C9, amended. Every returned speaker is \<open>Speaker 1\<close> or \<open>Speaker 2\<close>, or it is the
  label \<open>Speaker N\<close>, with \<open>N\<close> one or more decimal digits, that the segment itself
  starts with.
\<close>

theorem speaker_domain:
  assumes "i < length (diarizeTranscript transcript)"
  shows "speaker (diarizeTranscript transcript ! i) \<in> {''Speaker 1'', ''Speaker 2''}
       \<or> (\<exists>ds. ds \<noteq> [] \<and> (\<forall>c\<in>set ds. is_digit c)
              \<and> speaker (diarizeTranscript transcript ! i) = ''Speaker '' @ ds
              \<and> startsWith (fst (parseTranscriptSegments transcript ! i)) (''Speaker '' @ ds @ '':''))"
proof -
  from assms have i: "i < length (parseTranscriptSegments transcript)"
    by (simp add: diarize_length)
  let ?txt = "fst (parseTranscriptSegments transcript ! i)"
  show ?thesis
  proof (cases "match_speaker_label ?txt")
    case None
    then have "fst (determineSpeaker ?txt i) \<in> {''Speaker 1'', ''Speaker 2''}"
      by (simp add: determineSpeaker_def)
    with diarize_nth(1)[OF i] show ?thesis by simp
  next
    case (Some m)
    obtain label cleaned where m: "m = (label, cleaned)" by (cases m)
    from Some m have "fst (determineSpeaker ?txt i) = label"
      by (simp add: determineSpeaker_def)
    with match_speaker_label_Some[OF Some[unfolded m]] diarize_nth(1)[OF i]
    show ?thesis by auto
  qed
qed

theorem speaker_domain_witness:
  "0 < length (diarizeTranscript ''Speaker 3: hi'')
   \<and> (speaker (diarizeTranscript ''Speaker 3: hi'' ! 0) \<in> {''Speaker 1'', ''Speaker 2''}
       \<or> (\<exists>ds. ds \<noteq> [] \<and> (\<forall>c\<in>set ds. is_digit c)
              \<and> speaker (diarizeTranscript ''Speaker 3: hi'' ! 0) = ''Speaker '' @ ds
              \<and> startsWith (fst (parseTranscriptSegments ''Speaker 3: hi'' ! 0))
                    (''Speaker '' @ ds @ '':'')))"
proof -
  have p: "parseTranscriptSegments ''Speaker 3: hi'' = [(''Speaker 3: hi'', 0)]"
    by code_simp
  then have l: "0 < length (diarizeTranscript ''Speaker 3: hi'')"
    by (simp add: diarize_length)
  from speaker_domain[OF l] l show ?thesis by blast
qed

section \<open>Properties of \<^verbatim>\<open>generateSummary\<close>\<close>

text \<open>The pieces kept as sentences are not blank and hold no terminator.\<close>

lemma split_sentences_pieces:
  assumes "\<forall>c\<in>set cur. \<not> is_terminator c"
  shows "\<forall>s\<in>set (split_sentences cur t). \<forall>c\<in>set s. \<not> is_terminator c"
  using assms
proof (induction cur t rule: split_sentences.induct)
  case (1 cur)
  then show ?case by simp
next
  case (2 cur c cs)
  show ?case
  proof (cases "is_terminator c")
    case True
    have "\<forall>s\<in>set (split_sentences [] (dropWhile is_terminator cs)). \<forall>c\<in>set s. \<not> is_terminator c"
      by (rule "2.IH"(1)[OF True]) simp
    with True "2.prems" show ?thesis by simp
  next
    case False
    have "\<forall>s\<in>set (split_sentences (cur @ [c]) cs). \<forall>c\<in>set s. \<not> is_terminator c"
      by (rule "2.IH"(2)[OF False]) (use False "2.prems" in auto)
    with False show ?thesis by simp
  qed
qed

lemma sentences_of_pieces:
  "\<forall>s\<in>set (sentences_of transcript). trim s \<noteq> [] \<and> (\<forall>c\<in>set s. \<not> is_terminator c)"
proof
  fix s assume "s \<in> set (sentences_of transcript)"
  then have "s \<in> set (split_sentences [] transcript)" and "trim s \<noteq> []"
    by (simp_all add: sentences_of_def)
  with split_sentences_pieces[of "[]" transcript]
  show "trim s \<noteq> [] \<and> (\<forall>c\<in>set s. \<not> is_terminator c)" by simp
qed

text \<open>The source's splitter returns the pieces of the split, and no other list is one.\<close>

lemma trim_non_blank: "trim s \<noteq> [] \<longleftrightarrow> non_blank s"
proof
  assume "trim s \<noteq> []"
  then obtain x where "x \<in> set (dropWhile is_space s)" "\<not> is_space x"
    by (auto simp: trim_def dropWhile_eq_Nil_conv)
  then have "x \<in> set s" "\<not> is_space x" by (auto dest: set_dropWhileD)
  then show "non_blank s" unfolding non_blank_def by blast
next
  assume "non_blank s"
  then have ne: "dropWhile is_space s \<noteq> []"
    by (auto simp: non_blank_def dropWhile_eq_Nil_conv)
  then have "\<not> is_space (hd (dropWhile is_space s))" by (rule hd_dropWhile)
  moreover have "hd (dropWhile is_space s) \<in> set (rev (dropWhile is_space s))"
    using ne by simp
  ultimately have "dropWhile is_space (rev (dropWhile is_space s)) \<noteq> []"
    by (auto simp: dropWhile_eq_Nil_conv)
  then show "trim s \<noteq> []" by (simp add: trim_def)
qed

lemma split_sentences_plain:
  assumes "\<forall>c\<in>set p. \<not> is_terminator c"
  shows "split_sentences cur (p @ rest) = split_sentences (cur @ p) rest"
  using assms by (induction p arbitrary: cur) simp_all

lemma split_sentences_run:
  assumes "r \<noteq> []" "\<forall>c\<in>set r. is_terminator c"
  shows "split_sentences cur (r @ rest) = cur # split_sentences [] (dropWhile is_terminator rest)"
proof -
  from assms(1) obtain c r' where r: "r = c # r'" by (cases r) auto
  with assms(2) have "is_terminator c" and "\<forall>c\<in>set r'. is_terminator c" by simp_all
  then show ?thesis by (simp add: r dropWhile_append2)
qed

lemma weave_starts_plain:
  assumes "\<forall>p\<in>set ps. \<forall>c\<in>set p. \<not> is_terminator c"
    and "length ps = length rs + 1"
    and "\<forall>p\<in>set (butlast ps). p \<noteq> []"
  shows "dropWhile is_terminator (weave ps rs) = weave ps rs"
proof (cases ps)
  case Nil
  with assms(2) show ?thesis by simp
next
  case (Cons q qs)
  show ?thesis
  proof (cases rs)
    case Nil
    with Cons assms(2) have "qs = []" by simp
    with Cons Nil assms(1) show ?thesis by (cases q) simp_all
  next
    case rs: (Cons r rs')
    with Cons assms(2) have "qs \<noteq> []" by auto
    with Cons assms(3) have "q \<noteq> []" by simp
    then obtain c q' where q: "q = c # q'" by (cases q) auto
    with Cons assms(1) have "\<not> is_terminator c" by simp
    with Cons rs q show ?thesis by simp
  qed
qed

lemma split_sentences_weave:
  assumes "length ps = length rs + 1"
    and "\<forall>p\<in>set ps. \<forall>c\<in>set p. \<not> is_terminator c"
    and "\<forall>r\<in>set rs. r \<noteq> [] \<and> (\<forall>c\<in>set r. is_terminator c)"
    and "\<forall>p\<in>set (butlast (tl ps)). p \<noteq> []"
  shows "split_sentences cur (weave ps rs) = (cur @ hd ps) # tl ps"
  using assms
proof (induction rs arbitrary: ps cur)
  case Nil
  then obtain p where ps: "ps = [p]" by (cases ps) auto
  with Nil.prems(2) have "\<forall>c\<in>set p. \<not> is_terminator c" by simp
  from split_sentences_plain[OF this, of cur "[]"] ps show ?case by simp
next
  case (Cons r rs)
  from Cons.prems(1) obtain p ps' where ps: "ps = p # ps'" and len: "length ps' = length rs + 1"
    by (cases ps) auto
  from Cons.prems(2) ps have plain: "\<forall>c\<in>set p. \<not> is_terminator c"
    and plain': "\<forall>p\<in>set ps'. \<forall>c\<in>set p. \<not> is_terminator c" by simp_all
  from Cons.prems(3) have run: "r \<noteq> []" "\<forall>c\<in>set r. is_terminator c"
    and runs: "\<forall>r\<in>set rs. r \<noteq> [] \<and> (\<forall>c\<in>set r. is_terminator c)" by simp_all
  from Cons.prems(4) ps have inner: "\<forall>p\<in>set (butlast ps'). p \<noteq> []" by simp
  have inner': "\<forall>p\<in>set (butlast (tl ps')). p \<noteq> []"
    using inner by (metis butlast_tl list.set_sel(2) tl_Nil)
  have "split_sentences cur (weave ps (r # rs)) = split_sentences (cur @ p) (r @ weave ps' rs)"
    using split_sentences_plain[OF plain] by (simp add: ps)
  also have "\<dots> = (cur @ p) # split_sentences [] (dropWhile is_terminator (weave ps' rs))"
    by (rule split_sentences_run[OF run])
  also have "dropWhile is_terminator (weave ps' rs) = weave ps' rs"
    by (rule weave_starts_plain[OF plain' len inner])
  also have "split_sentences [] (weave ps' rs) = ([] @ hd ps') # tl ps'"
    by (rule Cons.IH[OF len plain' runs inner'])
  also have "([] @ hd ps') # tl ps' = ps'" using len by (cases ps') simp_all
  finally show ?case by (simp add: ps)
qed

lemma splits_unique:
  assumes "splits_at_terminators transcript pieces runs"
  shows "split_sentences [] transcript = pieces"
proof -
  from assms have l: "length pieces = length runs + 1"
    and w: "weave pieces runs = transcript"
    by (simp_all add: splits_at_terminators_def)
  from assms have "split_sentences [] (weave pieces runs) = ([] @ hd pieces) # tl pieces"
    by (intro split_sentences_weave) (simp_all add: splits_at_terminators_def)
  with l w show ?thesis by (cases pieces) simp_all
qed

lemma sentences_of_split:
  assumes "splits_at_terminators transcript pieces runs"
  shows "sentences_of transcript = filter non_blank pieces"
  using splits_unique[OF assms] by (simp add: sentences_of_def trim_non_blank)


text \<open>Every transcript has such a split.\<close>

lemma split_sentences_hd:
  assumes "cur \<noteq> []"
  shows "hd (split_sentences cur t) \<noteq> []"
  using assms by (induction cur t rule: split_sentences.induct) simp_all

lemma split_sentences_Cons: "\<exists>p ps. split_sentences cur t = p # ps"
  by (induction cur t rule: split_sentences.induct) simp_all

lemma splits_exist_aux:
  assumes "\<forall>c\<in>set cur. \<not> is_terminator c"
  shows "\<exists>runs. length (split_sentences cur t) = length runs + 1
       \<and> (\<forall>r\<in>set runs. r \<noteq> [] \<and> (\<forall>c\<in>set r. is_terminator c))
       \<and> (\<forall>p\<in>set (butlast (tl (split_sentences cur t))). p \<noteq> [])
       \<and> weave (split_sentences cur t) runs = cur @ t"
  using assms
proof (induction cur t rule: split_sentences.induct)
  case (1 cur)
  show ?case by (rule exI[of _ "[]"]) simp
next
  case (2 cur c cs)
  show ?case
  proof (cases "is_terminator c")
    case False
    from "2.IH"(2)[OF False] "2.prems" False obtain runs where
      "length (split_sentences (cur @ [c]) cs) = length runs + 1"
      "\<forall>r\<in>set runs. r \<noteq> [] \<and> (\<forall>c\<in>set r. is_terminator c)"
      "\<forall>p\<in>set (butlast (tl (split_sentences (cur @ [c]) cs))). p \<noteq> []"
      "weave (split_sentences (cur @ [c]) cs) runs = (cur @ [c]) @ cs"
      by auto
    with False show ?thesis by (intro exI[of _ runs]) simp
  next
    case True
    let ?d = "dropWhile is_terminator cs"
    let ?ps = "split_sentences [] ?d"
    from "2.IH"(1)[OF True] obtain runs where
      l: "length ?ps = length runs + 1"
      and r: "\<forall>r\<in>set runs. r \<noteq> [] \<and> (\<forall>c\<in>set r. is_terminator c)"
      and i: "\<forall>p\<in>set (butlast (tl ?ps)). p \<noteq> []"
      and w: "weave ?ps runs = [] @ ?d"
      by auto
    have inner: "\<forall>p\<in>set (butlast ?ps). p \<noteq> []"
    proof (cases ?d)
      case Nil
      then have "?ps = [[]]" by (simp only: split_sentences.simps)
      then have "butlast ?ps = []" by (metis butlast.simps(2))
      then show ?thesis by (metis empty_iff empty_set)
    next
      case (Cons x xs)
      then have "\<not> is_terminator x" by (metis hd_dropWhile list.sel(1) list.distinct(1))
      then have "hd ?ps \<noteq> []"
        using split_sentences_hd[of "[x]" xs] by (simp add: Cons)
      moreover obtain q qs where "?ps = q # qs" using split_sentences_Cons by blast
      ultimately show ?thesis using i by (cases qs) auto
    qed
    let ?run = "c # takeWhile is_terminator cs"
    have "weave (cur # ?ps) (?run # runs) = cur @ c # cs"
      using w by simp
    moreover have "\<forall>r\<in>set (?run # runs). r \<noteq> [] \<and> (\<forall>c\<in>set r. is_terminator c)"
      using r True by (auto dest: set_takeWhileD)
    ultimately show ?thesis
      using True l inner by (intro exI[of _ "?run # runs"]) simp
  qed
qed

lemma splits_exist: "\<exists>pieces runs. splits_at_terminators transcript pieces runs"
proof -
  from splits_exist_aux[of "[]" transcript] obtain runs where
    "length (split_sentences [] transcript) = length runs + 1"
    "\<forall>r\<in>set runs. r \<noteq> [] \<and> (\<forall>c\<in>set r. is_terminator c)"
    "\<forall>p\<in>set (butlast (tl (split_sentences [] transcript))). p \<noteq> []"
    "weave (split_sentences [] transcript) runs = transcript"
    by auto
  moreover have "\<forall>p\<in>set (split_sentences [] transcript). \<forall>c\<in>set p. \<not> is_terminator c"
    by (rule split_sentences_pieces) simp
  ultimately have "splits_at_terminators transcript (split_sentences [] transcript) runs"
    by (simp add: splits_at_terminators_def)
  then show ?thesis by blast
qed

text \<open>
  C10, as stated: more than 3 non-empty sentences give the three-sentence summary. The
  code drops the pieces that are blank, not only the empty ones: \<open>A. . B. C\<close> splits into
  the four non-empty pieces \<open>A\<close>, a space, \<open> B\<close> and \<open> C\<close>, of which three are kept, and
  the transcript is returned unchanged instead of \<open>A.  B.  C.\<close>
\<close>

theorem blank_sentence_not_counted:
  "splits_at_terminators ''A. . B. C'' [''A'', '' '', '' B'', '' C''] [''.'', ''.'', ''.'']
   \<and> length (filter (\<lambda>p. p \<noteq> []) [''A'', '' '', '' B'', '' C'']) = 4
   \<and> generateSummary ''A. . B. C'' = ''A. . B. C''
   \<and> generateSummary ''A. . B. C'' \<noteq> ''A.  B.  C.''"
proof -
  have sp: "splits_at_terminators ''A. . B. C'' [''A'', '' '', '' B'', '' C''] [''.'', ''.'', ''.'']"
    by (simp add: splits_at_terminators_def is_terminator_def)
  have "filter non_blank [''A'', '' '', '' B'', '' C''] = [''A'', '' B'', '' C'']"
    by (simp add: non_blank_def is_space_def code_unit_def)
  with sentences_of_split[OF sp] have "generateSummary ''A. . B. C'' = ''A. . B. C''"
    by (simp add: generateSummary_def)
  with sp show ?thesis by simp
qed

text \<open>
  C10, amended. Let the transcript split on runs of sentence terminators into
  \<open>pieces\<close>, and let the sentences be the non-blank pieces. With at most 3 sentences the
  transcript is returned unchanged; with \<open>n > 3\<close> sentences the summary is sentence 0,
  sentence \<open>n div 2\<close> and sentence \<open>n - 1\<close>, joined by a full stop and a space and
  closed by a full stop.
\<close>

theorem generateSummary_cases:
  assumes "splits_at_terminators transcript pieces runs"
  shows "(length (filter non_blank pieces) \<le> 3 \<longrightarrow> generateSummary transcript = transcript)
   \<and> (3 < length (filter non_blank pieces) \<longrightarrow>
        generateSummary transcript =
          filter non_blank pieces ! 0 @ ''. ''
          @ filter non_blank pieces ! (length (filter non_blank pieces) div 2) @ ''. ''
          @ filter non_blank pieces ! (length (filter non_blank pieces) - 1) @ ''.'')"
  by (simp add: generateSummary_def Let_def sentences_of_split[OF assms])

theorem generateSummary_cases_witness:
  "generateSummary ''A. . B. C'' = ''A. . B. C''
   \<and> generateSummary ''One. Two! Three? Four... Five.'' = ''One.  Three.  Five.''"
proof -
  have s3: "splits_at_terminators ''A. . B. C'' [''A'', '' '', '' B'', '' C''] [''.'', ''.'', ''.'']"
    by (simp add: splits_at_terminators_def is_terminator_def)
  have f3: "filter non_blank [''A'', '' '', '' B'', '' C''] = [''A'', '' B'', '' C'']"
    by (simp add: non_blank_def is_space_def code_unit_def)
  have s5: "splits_at_terminators ''One. Two! Three? Four... Five.''
      [''One'', '' Two'', '' Three'', '' Four'', '' Five'', []]
      [''.'', ''!'', ''?'', ''...'', ''.'']"
    by (simp add: splits_at_terminators_def is_terminator_def)
  have f5: "filter non_blank [''One'', '' Two'', '' Three'', '' Four'', '' Five'', []]
      = [''One'', '' Two'', '' Three'', '' Four'', '' Five'']"
    by (simp add: non_blank_def is_space_def code_unit_def)
  have "generateSummary ''A. . B. C'' = ''A. . B. C''"
    using generateSummary_cases[OF s3, unfolded f3] by simp
  moreover have "generateSummary ''One. Two! Three? Four... Five.'' = ''One.  Three.  Five.''"
    using generateSummary_cases[OF s5, unfolded f5] by simp
  ultimately show ?thesis by simp
qed

end
